theory Spec2Isabelle
  imports Main "HOL-Library.Sublist" "HOL-Library.AList" "HOL-Library.Char_ord"
    "HOL-Library.List_Lexorder" "HOL-Library.Product_Lexorder"
begin

section \<open>Python strings\<close>

text \<open>
  A Python \<open>str\<close> is modelled as a \<open>string\<close>. The characters are read as ASCII code
  points: \<open>str.lower\<close> and \<open>str.isspace\<close> are written out on the ASCII range, and a
  character above it is left alone by \<open>lower\<close> and is not white space.
\<close>

definition lower_char :: "char \<Rightarrow> char" where
  "lower_char c =
     (let n = (of_char c :: nat) in if 65 \<le> n \<and> n \<le> 90 then char_of (n + 32) else c)"

definition lower :: "string \<Rightarrow> string" where
  "lower s = map lower_char s"

definition isspace :: "char \<Rightarrow> bool" where
  "isspace c = (let n = (of_char c :: nat) in (9 \<le> n \<and> n \<le> 13) \<or> (28 \<le> n \<and> n \<le> 32))"

text \<open>\<open>s.strip()\<close>: leading and trailing white space removed.\<close>

definition strip :: "string \<Rightarrow> string" where
  "strip s = rev (dropWhile isspace (rev (dropWhile isspace s)))"

text \<open>
  \<open>s.split(sep)\<close> for a non-empty separator: the pieces between the leftmost
  non-overlapping occurrences of \<open>sep\<close>. Every call in the program passes a non-empty
  literal; with an empty one Python raises ValueError, and the model then never splits.
\<close>

function split :: "string \<Rightarrow> string \<Rightarrow> string list" where
  "split sep [] = [[]]"
| "split sep (c # cs) =
     (if sep \<noteq> [] \<and> prefix sep (c # cs)
      then [] # split sep (drop (length sep) (c # cs))
      else (case split sep cs of [] \<Rightarrow> [[c]] | p # ps \<Rightarrow> (c # p) # ps))"
  by pat_completeness auto
termination
  by (relation "measure (\<lambda>(sep, s). length s)") auto

text \<open>\<open>s.split(sep)[0]\<close>; the list of pieces is never empty, so the index is in range.\<close>

definition split0 :: "string \<Rightarrow> string \<Rightarrow> string" where
  "split0 sep s = (case split sep s of [] \<Rightarrow> [] | p # ps \<Rightarrow> p)"

section \<open>Package sets and the allow-lists\<close>

text \<open>
  A package dictionary (\<open>global_packages\<close>, \<open>venv_packages\<close>) is an association list
  from name to version, in the dictionary's iteration order; \<open>keys\<close> is what iterating
  the dictionary, or testing \<open>in\<close> on it, sees.
\<close>

type_synonym packages = "(string \<times> string) list"

definition keys :: "packages \<Rightarrow> string list" where
  "keys d = map fst d"

definition ESSENTIAL_TOOLS :: "string set" where
  "ESSENTIAL_TOOLS =
     {''jupyter'', ''jupyterlab'', ''ipython'', ''ipykernel'', ''notebook'',
      ''pip'', ''setuptools'', ''wheel'', ''pipx'', ''black'', ''pytest'',
      ''flake8'', ''mypy'', ''autopep8''}"

definition CORE_PACKAGES :: "string set" where
  "CORE_PACKAGES = {''pip'', ''setuptools'', ''wheel''}"

section \<open>Classification\<close>

text \<open>
  \<open>identify_project_dependencies\<close>: the requirements that are installed globally, and
  the packages common to the global and the project environment that are not essential
  tools. Both loops only add to a set, so the order of iteration is immaterial.
\<close>

definition identify_project_dependencies ::
    "packages \<Rightarrow> packages \<Rightarrow> string set \<Rightarrow> string set" where
  "identify_project_dependencies global_packages venv_packages requirements =
     (let from_requirements = Set.filter (\<lambda>req. req \<in> set (keys global_packages)) requirements;
          common_packages = set (keys global_packages) \<inter> set (keys venv_packages)
      in from_requirements \<union> Set.filter (\<lambda>pkg. pkg \<notin> ESSENTIAL_TOOLS) common_packages)"

text \<open>
  One pass of the loop body of \<open>identify_safe_to_remove\<close> on the pair
  \<open>(safe_to_remove, keep)\<close>; each \<open>continue\<close> is a branch that ends the pass.
\<close>

definition classify_step ::
    "string set \<Rightarrow> packages \<Rightarrow> string set \<Rightarrow> string
       \<Rightarrow> string set \<times> string set \<Rightarrow> string set \<times> string set" where
  "classify_step project_deps venv_packages requirements pkg_name acc =
     (let pkg_lower = lower pkg_name; safe_to_remove = fst acc; keep = snd acc in
      if pkg_lower \<in> CORE_PACKAGES then (safe_to_remove, insert pkg_name keep)
      else if pkg_lower \<in> ESSENTIAL_TOOLS then (safe_to_remove, insert pkg_name keep)
      else if pkg_name \<in> project_deps \<and> pkg_lower \<in> set (keys venv_packages)
        then (insert pkg_name safe_to_remove, keep)
      else if pkg_lower \<in> requirements \<and> pkg_lower \<in> set (keys venv_packages)
        then (insert pkg_name safe_to_remove, keep)
      else (safe_to_remove, keep))"

definition identify_safe_to_remove ::
    "packages \<Rightarrow> packages \<Rightarrow> string set \<Rightarrow> string set \<times> string set" where
  "identify_safe_to_remove global_packages venv_packages requirements =
     (let project_deps =
            identify_project_dependencies global_packages venv_packages requirements
      in fold (classify_step project_deps venv_packages requirements)
           (keys global_packages) ({}, {}))"

definition protected :: "string \<Rightarrow> bool" where
  "protected pkg_name \<longleftrightarrow> lower pkg_name \<in> CORE_PACKAGES \<union> ESSENTIAL_TOOLS"

section \<open>The manifest parser\<close>

text \<open>
  Iterating a file opened in text mode yields its lines, each with its line end; the
  line ends \<open>\n\<close>, \<open>\r\<close> and \<open>\r\n\<close> all arrive as \<open>\n\<close>. A last line without a
  line end is yielded as it is. \<open>cur\<close> holds the characters of the line being read,
  latest first.
\<close>

fun lines_from :: "string \<Rightarrow> string \<Rightarrow> string list" where
  "lines_from cur [] = (if cur = [] then [] else [rev cur])"
| "lines_from cur (c # cs) =
     (if c = CHR 0x0A then rev (CHR 0x0A # cur) # lines_from [] cs
      else if c = CHR 0x0D then
        (case cs of
           d # ds \<Rightarrow>
             (if d = CHR 0x0A then rev (CHR 0x0A # cur) # lines_from [] ds
              else rev (CHR 0x0A # cur) # lines_from [] cs)
         | [] \<Rightarrow> rev (CHR 0x0A # cur) # lines_from [] cs)
      else lines_from (c # cur) cs)"

definition file_lines :: "string \<Rightarrow> string list" where
  "file_lines content = lines_from [] content"

text \<open>
  The chain of splits that removes the version specifiers from a stripped line:
  \<open>line.split('==')[0].split('>=')[0].split('<=')[0].split('>')[0].split('<')[0].split('[')[0]\<close>.
\<close>

definition remove_version_specifiers :: "string \<Rightarrow> string" where
  "remove_version_specifiers line =
     split0 ''['' (split0 ''<'' (split0 ''>'' (split0 ''<=''
       (split0 ''>='' (split0 ''=='' line)))))"

text \<open>
  The body of the loop of \<open>load_requirements\<close> on one line: \<open>None\<close> when the line is
  skipped, otherwise the name that is added.
\<close>

definition requirement_name :: "string \<Rightarrow> string option" where
  "requirement_name raw =
     (let line = strip raw in
      if line \<noteq> [] \<and> \<not> prefix ''#'' line then
        (let pkg_name = strip (remove_version_specifiers line)
         in Some (lower pkg_name))
      else None)"

text \<open>
  \<open>p\<close> is \<open>line\<close> cut at a version specifier: all of \<open>line\<close>, or a part of it that
  a specifier follows.
\<close>

definition cut_at_specifier :: "string \<Rightarrow> string \<Rightarrow> bool" where
  "cut_at_specifier line p \<longleftrightarrow>
     prefix p line \<and>
     (p = line \<or>
      (\<exists>tok \<in> {''=='', ''>='', ''<='', ''>'', ''<'', ''[''}. prefix (p @ tok) line))"

definition add_requirement :: "string \<Rightarrow> string set \<Rightarrow> string set" where
  "add_requirement raw packages =
     (case requirement_name raw of None \<Rightarrow> packages | Some n \<Rightarrow> insert n packages)"

text \<open>
  \<open>load_requirements\<close>, given what is at the path: \<open>None\<close> when the file does not
  exist, otherwise its contents.
\<close>

definition load_requirements :: "string option \<Rightarrow> string set" where
  "load_requirements req_file =
     (case req_file of
        None \<Rightarrow> {}
      | Some content \<Rightarrow> fold add_requirement (file_lines content) {})"

section \<open>The backup file\<close>

text \<open>
  The text that \<open>create_backup\<close> writes: one \<open>name==version\<close> line for each item, the
  items sorted as Python sorts tuples of strings (lexicographically, by code point).
\<close>

definition backup_line :: "string \<times> string \<Rightarrow> string" where
  "backup_line item = fst item @ ''=='' @ snd item @ [CHR 0x0A]"

definition backup_text :: "packages \<Rightarrow> string" where
  "backup_text global_packages = concat (map backup_line (sort global_packages))"

text \<open>
  The names and versions for which reading the backup file back is straightforward: a
  plain name is its own lowercase and stripped form, does not start a comment and holds
  no specifier character and no line end; a version is on one line.
\<close>

definition plain_name :: "string \<Rightarrow> bool" where
  "plain_name n \<longleftrightarrow>
     lower n = n \<and> strip n = n \<and> \<not> prefix ''#'' n \<and>
     (\<forall>c \<in> set n. c \<notin> set ''=<>['' \<and> c \<noteq> CHR 0x0A \<and> c \<noteq> CHR 0x0D)"

definition one_line :: "string \<Rightarrow> bool" where
  "one_line v \<longleftrightarrow> CHR 0x0A \<notin> set v \<and> CHR 0x0D \<notin> set v"

section \<open>The outside world\<close>

text \<open>
  Everything the script asks of its surroundings is an outcome fixed in advance: whether
  a path exists, what a subprocess does, what the user types. A Ctrl-C that arrives
  while the script waits for one of them is an outcome of that request.
\<close>

datatype exn =
    KeyboardInterrupt
  | SystemExit int
  | FileNotFoundError
  | OSError
  | EOFError
  | TypeError

text \<open>
  The package lister: it exits non-zero with some stderr, or prints text that is not
  JSON, or JSON that is not a list of objects with a string \<open>name\<close> and a \<open>version\<close>,
  or the list of such entries. On JSON of another shape the dictionary comprehension
  of \<open>get_packages\<close> raises a KeyError, TypeError or AttributeError; \<open>TypeError\<close> stands
  for the three, which the handlers treat alike.
\<close>

datatype listing =
    CalledProcessError string
  | JSONDecodeError string
  | Malformed
  | Listed "(string \<times> string) list"
  | ListingInterrupted

datatype answer = Reply string | CtrlC | EndOfInput

datatype write_outcome = Written bool | WriteFails | WriteInterrupted

datatype run_outcome = Succeeded | Failed | RunInterrupted

datatype prompt = ContinueAnyway | CreateBackupAndUninstall | TypeYes

text \<open>
  What a run does, in order. A request to the outside world is recorded with its
  outcome: the lister run for an environment, a prompt with the answer, the backup
  write with the text written, the uninstaller run on a set of packages.
\<close>

datatype event =
    Print string
  | RunLister "string option" listing
  | Input prompt answer
  | DryRunPreview "string set"
  | Backup write_outcome string
  | RunUninstaller "string set" run_outcome

record world =
  venv_exists :: bool
  continue_answer :: answer
  python_exe_exists :: bool
  venv_listing :: listing
  global_listing :: listing
  requirements_txt :: "string option"
  confirm_answer :: answer
  backup_write :: write_outcome
  final_answer :: answer
  uninstall_run :: run_outcome

text \<open>
  A run of a piece of the script: what it did, in order, and how it ended, with an
  exception (\<open>Inl\<close>) or with a value. Of the console output, the two error messages
  of \<open>get_packages\<close>, the empty case of \<open>uninstall_packages\<close> and the dry-run preview
  are recorded.
\<close>

type_synonym 'a run = "event list \<times> (exn + 'a)"

definition and_then :: "'a run \<Rightarrow> ('a \<Rightarrow> 'b run) \<Rightarrow> 'b run" where
  "and_then m f =
     (case snd m of
        Inl e \<Rightarrow> (fst m, Inl e)
      | Inr x \<Rightarrow> (fst m @ fst (f x), snd (f x)))"

definition input :: "prompt \<Rightarrow> answer \<Rightarrow> string run" where
  "input p a =
     ([Input p a],
      case a of Reply s \<Rightarrow> Inr s | CtrlC \<Rightarrow> Inl KeyboardInterrupt | EndOfInput \<Rightarrow> Inl EOFError)"

section \<open>Listing, backing up, uninstalling\<close>

text \<open>
  \<open>get_packages\<close>: \<open>venv_path\<close> is the optional argument, \<open>exe_exists\<close> says whether
  the interpreter under it exists. The dictionary comprehension keeps, for a name listed
  twice, the place of its first entry and the version of its last.
\<close>

definition get_packages :: "string option \<Rightarrow> bool \<Rightarrow> listing \<Rightarrow> packages run" where
  "get_packages venv_path exe_exists l =
     (if venv_path \<noteq> None \<and> \<not> exe_exists then ([], Inl FileNotFoundError)
      else
        (case l of
           CalledProcessError stderr \<Rightarrow>
             ([RunLister venv_path l, Print (''Error getting packages: '' @ stderr)], Inr [])
         | JSONDecodeError msg \<Rightarrow>
             ([RunLister venv_path l, Print (''Error parsing package list: '' @ msg)], Inr [])
         | Malformed \<Rightarrow> ([RunLister venv_path l], Inl TypeError)
         | Listed pkgs \<Rightarrow>
             ([RunLister venv_path l],
              Inr (fold (\<lambda>pkg d. AList.update (lower (fst pkg)) (snd pkg) d) pkgs []))
         | ListingInterrupted \<Rightarrow> ([RunLister venv_path l], Inl KeyboardInterrupt)))"

text \<open>
  \<open>create_backup\<close>: opening or writing the file may raise; otherwise the text is
  written and the result is whether the path exists afterwards. For a write that raised,
  no text is recorded.
\<close>

definition create_backup :: "packages \<Rightarrow> write_outcome \<Rightarrow> bool run" where
  "create_backup global_packages outcome =
     (case outcome of
        WriteFails \<Rightarrow> ([Backup WriteFails []], Inl OSError)
      | WriteInterrupted \<Rightarrow> ([Backup WriteInterrupted []], Inl KeyboardInterrupt)
      | Written present \<Rightarrow>
          ([Backup (Written present) (backup_text global_packages)], Inr present))"

definition uninstall_packages :: "string set \<Rightarrow> bool \<Rightarrow> run_outcome \<Rightarrow> unit run" where
  "uninstall_packages packages dry_run outcome =
     (if packages = {} then ([Print ''No packages to uninstall.''], Inr ())
      else if dry_run then ([DryRunPreview packages], Inr ())
      else
        (case outcome of
           Succeeded \<Rightarrow> ([RunUninstaller packages outcome], Inr ())
         | Failed \<Rightarrow> ([RunUninstaller packages outcome], Inl (SystemExit 1))
         | RunInterrupted \<Rightarrow> ([RunUninstaller packages outcome], Inl KeyboardInterrupt)))"

section \<open>The main flow\<close>

text \<open>The first part of \<open>main\<close>: the project environment's packages.\<close>

definition main_venv :: "world \<Rightarrow> packages run" where
  "main_venv w =
     (if \<not> venv_exists w then
        and_then (input ContinueAnyway (continue_answer w)) (\<lambda>response.
          if lower response \<noteq> ''y'' then ([], Inl (SystemExit 0)) else ([], Inr []))
      else get_packages (Some ''venv'') (python_exe_exists w) (venv_listing w))"

text \<open>The last part of \<open>main\<close>, from the dry run on.\<close>

definition main_removal :: "world \<Rightarrow> packages \<Rightarrow> string set \<Rightarrow> unit run" where
  "main_removal w global_packages safe_to_remove =
     and_then (uninstall_packages safe_to_remove True (uninstall_run w)) (\<lambda>_.
     and_then (input CreateBackupAndUninstall (confirm_answer w)) (\<lambda>response.
       if lower response \<noteq> ''y'' then ([], Inr ())
       else
         and_then (create_backup global_packages (backup_write w)) (\<lambda>_.
         and_then (input TypeYes (final_answer w)) (\<lambda>final_confirm.
           if lower final_confirm \<noteq> ''yes'' then ([], Inr ())
           else uninstall_packages safe_to_remove False (uninstall_run w)))))"

definition main :: "world \<Rightarrow> unit run" where
  "main w =
     and_then (main_venv w) (\<lambda>venv_packages.
     and_then (get_packages None False (global_listing w)) (\<lambda>global_packages.
       let requirements = load_requirements (requirements_txt w);
           result = identify_safe_to_remove global_packages venv_packages requirements;
           safe_to_remove = fst result
       in if safe_to_remove = {} then ([], Inr ())
          else main_removal w global_packages safe_to_remove))"

text \<open>
  The script as a whole: the exit status that the handlers around \<open>main\<close> give.
  \<open>SystemExit\<close> is not an \<open>Exception\<close> and passes through with its own status.
\<close>

definition exit_status :: "exn + unit \<Rightarrow> int" where
  "exit_status r =
     (case r of
        Inr _ \<Rightarrow> 0
      | Inl KeyboardInterrupt \<Rightarrow> 0
      | Inl (SystemExit n) \<Rightarrow> n
      | Inl _ \<Rightarrow> 1)"

definition script :: "world \<Rightarrow> event list \<times> int" where
  "script w = (fst (main w), exit_status (snd (main w)))"

text \<open>
  The events of the first part of a run, up to the classification: console output, the
  lister, the prompt about a missing project environment.
\<close>

fun preliminary :: "event \<Rightarrow> bool" where
  "preliminary (Print _) = True"
| "preliminary (RunLister _ _) = True"
| "preliminary (Input p _) = (p = ContinueAnyway)"
| "preliminary _ = False"

text \<open>
  The events that abort a run: an answer to a prompt other than the affirmative one
  (\<open>yes\<close> for the final prompt, \<open>y\<close> for the others, in any case of letters), and a
  Ctrl-C at a prompt, during a package listing or during the backup write. An end of
  input at a prompt is not among them: \<open>input\<close> raises EOFError there, and the script
  exits with status 1.
\<close>

fun abort_event :: "event \<Rightarrow> bool" where
  "abort_event (Input p (Reply r)) = (lower r \<noteq> (if p = TypeYes then ''yes'' else ''y''))"
| "abort_event (Input p CtrlC) = True"
| "abort_event (RunLister vp ListingInterrupted) = True"
| "abort_event (Backup WriteInterrupted text) = True"
| "abort_event _ = False"

text \<open>
  A world in which everything succeeds and the user confirms twice: Flask is installed
  in the project and globally, pip globally only.
\<close>

definition sample_world :: world where
  "sample_world =
     \<lparr>venv_exists = True, continue_answer = EndOfInput, python_exe_exists = True,
      venv_listing = Listed [(''Flask'', ''2.0'')],
      global_listing = Listed [(''Flask'', ''2.0''), (''pip'', ''23.0'')],
      requirements_txt = None, confirm_answer = Reply ''Y'', backup_write = Written True,
      final_answer = Reply ''YES'', uninstall_run = Succeeded\<rparr>"

section \<open>Properties of the classification\<close>

lemma fold_classify_step_keep:
  "snd (fold (classify_step pd v r) ks acc) = snd acc \<union> {k \<in> set ks. protected k}"
  by (induction ks arbitrary: acc) (auto simp: classify_step_def protected_def Let_def)

lemma fold_classify_step_safe:
  "fst (fold (classify_step pd v r) ks acc) =
     fst acc \<union> {k \<in> set ks. \<not> protected k \<and> lower k \<in> set (keys v) \<and> (k \<in> pd \<or> lower k \<in> r)}"
  by (induction ks arbitrary: acc) (auto simp: classify_step_def protected_def Let_def)

lemma keep_eq:
  "snd (identify_safe_to_remove g v r) = {k \<in> set (keys g). protected k}"
  by (simp add: identify_safe_to_remove_def fold_classify_step_keep)

lemma safe_eq:
  "fst (identify_safe_to_remove g v r) =
     {k \<in> set (keys g). \<not> protected k \<and> lower k \<in> set (keys v) \<and>
        (k \<in> identify_project_dependencies g v r \<or> lower k \<in> r)}"
  by (simp add: identify_safe_to_remove_def fold_classify_step_safe)

lemma lower_lower: "lower (lower s) = lower s"
proof -
  have "lower_char (lower_char c) = lower_char c" for c
    by (simp add: lower_char_def Let_def)
  then show ?thesis by (simp add: lower_def)
qed

lemma keys_update: "set (keys (AList.update k x d)) = insert k (set (keys d))"
  by (simp add: keys_def update_keys) auto

lemma fold_update_lowercase:
  "\<forall>k \<in> set (keys d). lower k = k \<Longrightarrow>
   \<forall>k \<in> set (keys (fold (\<lambda>pkg d. AList.update (lower (fst pkg)) (snd pkg) d) pkgs d)).
     lower k = k"
proof (induction pkgs arbitrary: d)
  case Nil
  then show ?case by simp
next
  case (Cons p ps)
  have step: "\<forall>k \<in> set (keys (AList.update (lower (fst p)) (snd p) d)). lower k = k"
    unfolding keys_update using Cons.prems lower_lower by blast
  show ?case unfolding fold_Cons comp_apply by (rule Cons.IH [OF step])
qed

lemma get_packages_lowercase:
  "get_packages venv_path exe_exists l = (t, Inr d) \<Longrightarrow> k \<in> set (keys d) \<Longrightarrow> lower k = k"
  using fold_update_lowercase [of "[]"]
  by (auto simp: get_packages_def keys_def split: if_splits listing.splits)

text \<open>
  C2. For all package sets and requirements, the two sets that
  \<open>identify_safe_to_remove\<close> returns are disjoint, and the safe-to-remove set holds
  only names of global packages.
\<close>

theorem safe_to_remove_disjoint_keep_and_global:
  "fst (identify_safe_to_remove g v r) \<inter> snd (identify_safe_to_remove g v r) = {} \<and>
   fst (identify_safe_to_remove g v r) \<subseteq> set (keys g)"
  by (auto simp: safe_eq keep_eq)

text \<open>
  C3. A global package whose lowercased name is in \<open>CORE_PACKAGES\<close> or
  \<open>ESSENTIAL_TOOLS\<close> ends in the keep set and not in the safe-to-remove set, whatever
  the project packages and the requirements are; the loop body, on such a name, adds it
  to keep and leaves safe-to-remove as it is, whatever the later rules would say.
\<close>

theorem core_and_essential_kept:
  assumes "pkg \<in> set (keys g)" and "lower pkg \<in> CORE_PACKAGES \<union> ESSENTIAL_TOOLS"
  shows "pkg \<in> snd (identify_safe_to_remove g v r) \<and>
         pkg \<notin> fst (identify_safe_to_remove g v r) \<and>
         classify_step pd v r pkg (safe_to_remove, keep) = (safe_to_remove, insert pkg keep)"
  using assms by (auto simp: safe_eq keep_eq protected_def classify_step_def Let_def)

theorem core_and_essential_kept_witness:
  "''pip'' \<in> set (keys [(''pip'', ''23.0''), (''Black'', ''24.0'')]) \<and>
   lower ''pip'' \<in> CORE_PACKAGES \<union> ESSENTIAL_TOOLS \<and>
   ''Black'' \<in> set (keys [(''pip'', ''23.0''), (''Black'', ''24.0'')]) \<and>
   lower ''Black'' \<in> CORE_PACKAGES \<union> ESSENTIAL_TOOLS \<and>
   snd (identify_safe_to_remove [(''pip'', ''23.0''), (''Black'', ''24.0'')]
          [(''pip'', ''23.0''), (''black'', ''24.0'')] {''pip'', ''Black'', ''black''})
     = {''pip'', ''Black''} \<and>
   fst (identify_safe_to_remove [(''pip'', ''23.0''), (''Black'', ''24.0'')]
          [(''pip'', ''23.0''), (''black'', ''24.0'')] {''pip'', ''Black'', ''black''})
     = {}"
proof -
  let ?g = "[(''pip'', ''23.0''), (''Black'', ''24.0'')]"
  let ?v = "[(''pip'', ''23.0''), (''black'', ''24.0'')]"
  let ?r = "{''pip'', ''Black'', ''black''}"
  have p1: "''pip'' \<in> set (keys ?g)" by code_simp
  have p2: "lower ''pip'' \<in> CORE_PACKAGES \<union> ESSENTIAL_TOOLS" by code_simp
  have b1: "''Black'' \<in> set (keys ?g)" by code_simp
  have b2: "lower ''Black'' \<in> CORE_PACKAGES \<union> ESSENTIAL_TOOLS" by code_simp
  have sub: "snd (identify_safe_to_remove ?g ?v ?r) \<subseteq> {''pip'', ''Black''}"
    by (auto simp: keep_eq keys_def)
  have safe: "fst (identify_safe_to_remove ?g ?v ?r) \<subseteq> {''pip'', ''Black''}"
    by (auto simp: safe_eq keys_def)
  from core_and_essential_kept [OF p1 p2, of ?v ?r] core_and_essential_kept [OF b1 b2, of ?v ?r]
    p1 p2 b1 b2 sub safe
  show ?thesis by blast
qed

text \<open>
  C4. Every name in the safe-to-remove set is, lowercased, a key of the project package
  set; the test in the code is on the lowercased name, so a name that is its own
  lowercase form (as every key built by \<open>get_packages\<close> is) is itself a key there. With
  an empty project package set nothing is safe to remove.
\<close>

theorem safe_to_remove_in_project:
  "(pkg \<in> fst (identify_safe_to_remove g v r) \<longrightarrow>
      lower pkg \<in> set (keys v) \<and> (lower pkg = pkg \<longrightarrow> pkg \<in> set (keys v))) \<and>
   fst (identify_safe_to_remove g [] r) = {}"
proof (rule conjI)
  show "pkg \<in> fst (identify_safe_to_remove g v r) \<longrightarrow>
      lower pkg \<in> set (keys v) \<and> (lower pkg = pkg \<longrightarrow> pkg \<in> set (keys v))"
  proof
    assume "pkg \<in> fst (identify_safe_to_remove g v r)"
    then have "lower pkg \<in> set (keys v)" by (simp add: safe_eq)
    then show "lower pkg \<in> set (keys v) \<and> (lower pkg = pkg \<longrightarrow> pkg \<in> set (keys v))"
      by auto
  qed
next
  show "fst (identify_safe_to_remove g [] r) = {}"
    by (simp add: safe_eq keys_def)
qed

theorem safe_to_remove_in_project_witness:
  "''flask'' \<in> fst (identify_safe_to_remove [(''flask'', ''2.0'')] [(''flask'', ''2.1'')] {}) \<and>
   lower ''flask'' = ''flask'' \<and>
   ''flask'' \<in> set (keys [(''flask'', ''2.1'')])"
proof -
  have a: "''flask'' \<in> fst (identify_safe_to_remove [(''flask'', ''2.0'')] [(''flask'', ''2.1'')] {})"
    by code_simp
  have b: "lower ''flask'' = ''flask''" by code_simp
  from safe_to_remove_in_project [of "''flask''" "[(''flask'', ''2.0'')]" "[(''flask'', ''2.1'')]" "{}"]
    a b
  show ?thesis by simp
qed

text \<open>
  C5. The scenario of the specification: flask is installed globally and in the project
  and is declared; pip and black are installed globally only.
\<close>

theorem scenario_flask_pip_black:
  "identify_safe_to_remove
     [(''flask'', ''2.0''), (''pip'', ''23.0''), (''black'', ''24.0'')]
     [(''flask'', ''2.0'')] {''flask''}
   = ({''flask''}, {''pip'', ''black''})"
  by code_simp

text \<open>
  C10. The keep set is exactly the set of global names whose lowercased form is in
  \<open>CORE_PACKAGES\<close> or \<open>ESSENTIAL_TOOLS\<close>. The global names in neither returned set
  are those that are not protected and that no removal rule matches; numpy, installed
  globally only, is one, so the two sets together may miss a global name.
\<close>

theorem keep_exactly_core_and_essential:
  "snd (identify_safe_to_remove g v r) =
     {pkg \<in> set (keys g). lower pkg \<in> CORE_PACKAGES \<union> ESSENTIAL_TOOLS} \<and>
   set (keys g) - (fst (identify_safe_to_remove g v r) \<union> snd (identify_safe_to_remove g v r)) =
     {pkg \<in> set (keys g). lower pkg \<notin> CORE_PACKAGES \<union> ESSENTIAL_TOOLS \<and>
        \<not> (lower pkg \<in> set (keys v) \<and>
           (pkg \<in> identify_project_dependencies g v r \<or> lower pkg \<in> r))} \<and>
   fst (identify_safe_to_remove [(''numpy'', ''1.26''), (''pip'', ''23.0'')] [] {}) \<union>
   snd (identify_safe_to_remove [(''numpy'', ''1.26''), (''pip'', ''23.0'')] [] {})
     \<subset> set (keys [(''numpy'', ''1.26''), (''pip'', ''23.0'')])"
proof (intro conjI)
  show "snd (identify_safe_to_remove g v r) =
     {pkg \<in> set (keys g). lower pkg \<in> CORE_PACKAGES \<union> ESSENTIAL_TOOLS}"
    by (simp add: keep_eq protected_def)
  show "set (keys g) - (fst (identify_safe_to_remove g v r) \<union> snd (identify_safe_to_remove g v r)) =
     {pkg \<in> set (keys g). lower pkg \<notin> CORE_PACKAGES \<union> ESSENTIAL_TOOLS \<and>
        \<not> (lower pkg \<in> set (keys v) \<and>
           (pkg \<in> identify_project_dependencies g v r \<or> lower pkg \<in> r))}"
    by (auto simp: keep_eq safe_eq protected_def)
  show "fst (identify_safe_to_remove [(''numpy'', ''1.26''), (''pip'', ''23.0'')] [] {}) \<union>
   snd (identify_safe_to_remove [(''numpy'', ''1.26''), (''pip'', ''23.0'')] [] {})
     \<subset> set (keys [(''numpy'', ''1.26''), (''pip'', ''23.0'')])"
    by code_simp
qed

section \<open>Properties of the string operations and of the manifest parser\<close>

lemma of_char_lower_char:
  "(of_char (lower_char c) :: nat) =
     (if 65 \<le> (of_char c :: nat) \<and> (of_char c :: nat) \<le> 90 then of_char c + 32 else of_char c)"
  by (simp add: lower_char_def Let_def)

lemma lower_char_eqD:
  assumes "lower_char c = d" and "\<not> (97 \<le> (of_char d :: nat) \<and> (of_char d :: nat) \<le> 122)"
  shows "c = d"
proof -
  have "(of_char (lower_char c) :: nat) = of_char d" using assms(1) by simp
  then have "\<not> (65 \<le> (of_char c :: nat) \<and> (of_char c :: nat) \<le> 90)"
    using assms(2) by (auto simp: of_char_lower_char split: if_splits)
  then show "c = d" using assms(1) by (auto simp: lower_char_def Let_def)
qed

lemma isspace_lower_char: "isspace (lower_char c) = isspace c"
  by (auto simp: isspace_def of_char_lower_char Let_def)

lemma split_not_Nil: "split sep s \<noteq> []"
  by (induction sep s rule: split.induct) (auto split: list.splits)

lemma split0_Nil: "split0 sep [] = []"
  by (simp add: split0_def)

lemma split0_Cons:
  "split0 sep (c # cs) = (if sep \<noteq> [] \<and> prefix sep (c # cs) then [] else c # split0 sep cs)"
  using split_not_Nil [of sep cs] by (auto simp: split0_def split: list.splits)

lemma prefix_split0: "prefix (split0 sep s) s"
  by (induction s) (simp_all add: split0_Nil split0_Cons)

lemma split0_no_sep: "sep \<noteq> [] \<Longrightarrow> \<not> sublist sep (split0 sep s)"
proof (induction s)
  case Nil
  then show ?case by (simp add: split0_Nil)
next
  case (Cons c cs)
  show ?case
  proof (cases "prefix sep (c # cs)")
    case True
    then show ?thesis using Cons.prems by (simp add: split0_Cons)
  next
    case False
    have "\<not> prefix sep (c # split0 sep cs)"
    proof
      assume "prefix sep (c # split0 sep cs)"
      moreover have "prefix (c # split0 sep cs) (c # cs)" by (simp add: prefix_split0)
      ultimately have "prefix sep (c # cs)" by (rule prefix_order.trans)
      with False show False by simp
    qed
    with Cons False show ?thesis by (simp add: split0_Cons sublist_Cons_right)
  qed
qed

lemma split0_cut: "split0 sep s = s \<or> prefix (split0 sep s @ sep) s"
  by (induction s) (auto simp: split0_Nil split0_Cons)

lemma split0_id: "\<not> sublist sep s \<Longrightarrow> split0 sep s = s"
  by (induction s) (auto simp: split0_Nil split0_Cons sublist_Cons_right)

lemma sublist_strip: "sublist (strip s) s"
proof -
  have "sublist (rev (dropWhile isspace (rev (dropWhile isspace s)))) (dropWhile isspace s)"
    by (simp add: sublist_rev_left)
  then show ?thesis
    unfolding strip_def using sublist_dropWhile sublist_order.order.trans by blast
qed

lemma strip_lower: "strip (lower s) = lower (strip s)"
proof -
  have c: "isspace \<circ> lower_char = isspace" by (auto simp: isspace_lower_char)
  show ?thesis by (simp add: strip_def lower_def dropWhile_map rev_map c)
qed

lemma prefix_hd: "prefix u t \<Longrightarrow> u \<noteq> [] \<Longrightarrow> hd u = hd t"
  by (auto simp: prefix_def)

lemma strip_strip: "strip (strip s) = strip s"
proof -
  let ?t = "dropWhile isspace s"
  let ?u = "rev (dropWhile isspace (rev ?t))"
  have pre: "prefix ?u ?t"
  proof -
    have "rev ?t = takeWhile isspace (rev ?t) @ dropWhile isspace (rev ?t)" by simp
    then have "?t = ?u @ rev (takeWhile isspace (rev ?t))"
      by (metis rev_append rev_rev_ident)
    then show ?thesis by (metis prefixI)
  qed
  have "dropWhile isspace ?u = ?u"
  proof (cases "?u = []")
    case True
    show ?thesis by (simp only: True dropWhile.simps)
  next
    case False
    have "?t \<noteq> []"
    proof
      assume e: "?t = []"
      have "?u = []" unfolding e by simp
      with False show False by (rule notE)
    qed
    then have "\<not> isspace (hd ?t)" by (rule hd_dropWhile)
    moreover have "hd ?u = hd ?t" using pre False by (rule prefix_hd)
    ultimately show ?thesis using False by (simp add: dropWhile_eq_self_iff)
  qed
  then show ?thesis by (simp add: strip_def)
qed

lemma strip_self_hd: "strip s = s \<Longrightarrow> s \<noteq> [] \<Longrightarrow> \<not> isspace (hd s)"
proof
  assume a: "strip s = s" "s \<noteq> []" "isspace (hd s)"
  then obtain x xs where s: "s = x # xs" by (cases s) auto
  have "length (strip s) \<le> length (dropWhile isspace s)"
    unfolding strip_def using length_dropWhile_le [of isspace "rev (dropWhile isspace s)"] by simp
  also have "\<dots> \<le> length xs" using a s by (simp add: length_dropWhile_le)
  finally show False using a s by simp
qed

lemma dropWhile_stop: "\<not> P y \<Longrightarrow> dropWhile P (xs @ y # ys) = dropWhile P xs @ y # ys"
  by (induction xs) auto

lemma lines_from_line:
  "CHR 0x0A \<notin> set x \<Longrightarrow> CHR 0x0D \<notin> set x \<Longrightarrow>
   lines_from cur (x @ CHR 0x0A # rest) = (rev cur @ x @ [CHR 0x0A]) # lines_from [] rest"
  by (induction x arbitrary: cur) auto

lemma sublist_single: "sublist [c] xs \<longleftrightarrow> c \<in> set xs"
proof
  assume "sublist [c] xs"
  then show "c \<in> set xs" by (auto simp: sublist_def)
next
  assume "c \<in> set xs"
  then obtain ys zs where "xs = ys @ c # zs" by (auto dest: split_list)
  then have "xs = ys @ [c] @ zs" by simp
  then show "sublist [c] xs" unfolding sublist_def by blast
qed

lemma split0_no_char: "c \<notin> set (split0 [c] s)"
  using split0_no_sep [of "[c]" s] by (simp add: sublist_single)

lemma prefix_no_sublist: "prefix p q \<Longrightarrow> \<not> sublist sep q \<Longrightarrow> \<not> sublist sep p"
  using prefix_imp_sublist sublist_order.order.trans by blast

lemma prefix_no_char: "prefix p q \<Longrightarrow> c \<notin> set q \<Longrightarrow> c \<notin> set p"
  using set_mono_prefix by blast

lemma strip_no_char: "c \<notin> set p \<Longrightarrow> c \<notin> set (strip p)"
  using sublist_strip [of p] set_mono_sublist by blast

lemma strip_no_sublist: "\<not> sublist sep p \<Longrightarrow> \<not> sublist sep (strip p)"
  using sublist_strip [of p] sublist_order.order.trans by blast

lemma lower_no_char:
  assumes "c \<notin> set p" and "\<not> (97 \<le> (of_char c :: nat) \<and> (of_char c :: nat) \<le> 122)"
  shows "c \<notin> set (lower p)"
proof
  assume "c \<in> set (lower p)"
  then obtain c' where c': "c' \<in> set p" "lower_char c' = c" by (auto simp: lower_def)
  from lower_char_eqD [OF c'(2) assms(2)] c'(1) assms(1) show False by simp
qed

lemma lower_no_eqeq:
  assumes "\<not> sublist ''=='' p"
  shows "\<not> sublist ''=='' (lower p)"
proof
  assume "sublist ''=='' (lower p)"
  then have "\<exists>xs. sublist xs p \<and> ''=='' = map lower_char xs"
    unfolding lower_def by (rule sublist_map_rightE)
  then obtain xs where xs: "sublist xs p" and m: "map lower_char xs = ''==''"
    by (elim exE conjE) simp
  from m obtain a b where ab: "xs = [a, b]" "lower_char a = CHR ''=''" "lower_char b = CHR ''=''"
    by (auto simp: map_eq_Cons_conv)
  have "a = CHR ''=''" by (rule lower_char_eqD [OF ab(2)]) simp
  moreover have "b = CHR ''=''" by (rule lower_char_eqD [OF ab(3)]) simp
  ultimately show False using xs ab(1) assms by simp
qed

lemma cut_step:
  assumes "cut_at_specifier line q" and "sep \<in> {''=='', ''>='', ''<='', ''>'', ''<'', ''[''}"
  shows "cut_at_specifier line (split0 sep q)"
proof -
  have pq: "prefix (split0 sep q) q" by (rule prefix_split0)
  have ql: "prefix q line" using assms(1) by (simp add: cut_at_specifier_def)
  have p: "prefix (split0 sep q) line" using pq ql by (rule prefix_order.trans)
  from split0_cut [of sep q] show ?thesis
  proof
    assume "split0 sep q = q"
    then show ?thesis using assms(1) by simp
  next
    assume "prefix (split0 sep q @ sep) q"
    then have "prefix (split0 sep q @ sep) line" using ql by (rule prefix_order.trans)
    then show ?thesis using p assms(2) unfolding cut_at_specifier_def by blast
  qed
qed

lemma cut_remove_version_specifiers: "cut_at_specifier line (remove_version_specifiers line)"
proof -
  have "cut_at_specifier line line" by (simp add: cut_at_specifier_def)
  then have "cut_at_specifier line (split0 ''=='' line)" by (rule cut_step) simp
  then have "cut_at_specifier line (split0 ''>='' (split0 ''=='' line))" by (rule cut_step) simp
  then have "cut_at_specifier line (split0 ''<='' (split0 ''>='' (split0 ''=='' line)))"
    by (rule cut_step) simp
  then have "cut_at_specifier line (split0 ''>'' (split0 ''<='' (split0 ''>='' (split0 ''=='' line))))"
    by (rule cut_step) simp
  then have "cut_at_specifier line (split0 ''<'' (split0 ''>'' (split0 ''<=''
      (split0 ''>='' (split0 ''=='' line)))))"
    by (rule cut_step) simp
  then show ?thesis unfolding remove_version_specifiers_def by (rule cut_step) simp
qed

lemma remove_version_specifiers_none:
  "\<not> sublist ''=='' (remove_version_specifiers line)" "CHR ''>'' \<notin> set (remove_version_specifiers line)"
  "CHR ''<'' \<notin> set (remove_version_specifiers line)" "CHR ''['' \<notin> set (remove_version_specifiers line)"
proof -
  let ?a = "split0 ''=='' line"
  let ?b = "split0 ''>='' ?a"
  let ?c = "split0 ''<='' ?b"
  let ?d = "split0 ''>'' ?c"
  let ?e = "split0 ''<'' ?d"
  have a: "\<not> sublist ''=='' ?a" by (rule split0_no_sep) simp
  have pre: "prefix ?b ?a" "prefix ?c ?b" "prefix ?d ?c" "prefix ?e ?d" "prefix (remove_version_specifiers line) ?e"
    by (simp_all add: prefix_split0 remove_version_specifiers_def)
  have d: "CHR ''>'' \<notin> set ?d" by (rule split0_no_char)
  have e: "CHR ''<'' \<notin> set ?e" by (rule split0_no_char)
  have ed: "prefix (remove_version_specifiers line) ?d" using pre(5) pre(4) by (rule prefix_order.trans)
  then have "prefix (remove_version_specifiers line) ?c" using pre(3) by (rule prefix_order.trans)
  then have "prefix (remove_version_specifiers line) ?b" using pre(2) by (rule prefix_order.trans)
  then have "prefix (remove_version_specifiers line) ?a" using pre(1) by (rule prefix_order.trans)
  then show "\<not> sublist ''=='' (remove_version_specifiers line)" using a by (rule prefix_no_sublist)
  show "CHR ''>'' \<notin> set (remove_version_specifiers line)" using ed d by (rule prefix_no_char)
  show "CHR ''<'' \<notin> set (remove_version_specifiers line)" using pre(5) e by (rule prefix_no_char)
  show "CHR ''['' \<notin> set (remove_version_specifiers line)"
    unfolding remove_version_specifiers_def by (rule split0_no_char)
qed

lemma requirement_name_Some:
  "requirement_name raw = Some e \<longleftrightarrow>
     strip raw \<noteq> [] \<and> \<not> prefix ''#'' (strip raw) \<and> e = lower (strip (remove_version_specifiers (strip raw)))"
  by (auto simp: requirement_name_def Let_def)

lemma fold_add_requirement:
  "fold add_requirement ls S = S \<union> {n. \<exists>raw \<in> set ls. requirement_name raw = Some n}"
  by (induction ls arbitrary: S) (auto simp: add_requirement_def split: option.splits)

lemma load_requirements_Some:
  "load_requirements (Some content) =
     {n. \<exists>raw \<in> set (file_lines content). requirement_name raw = Some n}"
  by (simp add: load_requirements_def fold_add_requirement)

lemma strip_blank:
  assumes "\<forall>c \<in> set raw. isspace c"
  shows "strip raw = []"
proof -
  have e: "dropWhile isspace raw = []" using assms by (simp only: dropWhile_eq_Nil_conv)
  show ?thesis by (simp only: strip_def e rev.simps dropWhile.simps)
qed

lemma strip_comment: "prefix ''#'' raw \<Longrightarrow> prefix ''#'' (strip raw)"
proof -
  assume "prefix ''#'' raw"
  then obtain t where raw: "raw = CHR ''#'' # t" by (auto simp: prefix_def)
  have ns: "\<not> isspace CHR ''#''" by (simp add: isspace_def)
  have "dropWhile isspace (rev t @ CHR ''#'' # []) = dropWhile isspace (rev t) @ CHR ''#'' # []"
    using ns by (rule dropWhile_stop)
  then have "strip raw = CHR ''#'' # rev (dropWhile isspace (rev t))"
    using ns by (simp add: strip_def raw)
  then show ?thesis by simp
qed

lemma manifest_parsing_parts:
  "fold add_requirement (file_lines content) (load_requirements (Some content))
     = load_requirements (Some content)"
  "load_requirements (Some ''requests>=2.0,<3.0  # http'') = {''requests''}"
  "(\<forall>c \<in> set raw. isspace c) \<or> prefix ''#'' raw \<Longrightarrow> add_requirement raw packages = packages"
  "e \<in> load_requirements (Some content) \<Longrightarrow>
     (\<exists>raw \<in> set (file_lines content). \<exists>p.
        cut_at_specifier (strip raw) p \<and> e = lower (strip p)) \<and>
     lower e = e \<and> strip e = e \<and>
     \<not> sublist ''=='' e \<and> \<not> sublist ''>='' e \<and> \<not> sublist ''<='' e \<and>
     CHR ''>'' \<notin> set e \<and> CHR ''<'' \<notin> set e \<and> CHR ''['' \<notin> set e"
proof -
  show "fold add_requirement (file_lines content) (load_requirements (Some content))
     = load_requirements (Some content)"
    by (auto simp: fold_add_requirement load_requirements_Some)
  show "load_requirements (Some ''requests>=2.0,<3.0  # http'') = {''requests''}"
    by code_simp
  show "add_requirement raw packages = packages"
    if "(\<forall>c \<in> set raw. isspace c) \<or> prefix ''#'' raw"
  proof -
    have "strip raw = [] \<or> prefix ''#'' (strip raw)"
      using that strip_blank strip_comment by blast
    then have "requirement_name raw = None"
      by (auto simp: requirement_name_def)
    then show ?thesis by (simp add: add_requirement_def)
  qed
  show "(\<exists>raw \<in> set (file_lines content). \<exists>p.
        cut_at_specifier (strip raw) p \<and> e = lower (strip p)) \<and>
     lower e = e \<and> strip e = e \<and>
     \<not> sublist ''=='' e \<and> \<not> sublist ''>='' e \<and> \<not> sublist ''<='' e \<and>
     CHR ''>'' \<notin> set e \<and> CHR ''<'' \<notin> set e \<and> CHR ''['' \<notin> set e"
    if "e \<in> load_requirements (Some content)"
  proof -
    from that obtain raw where raw: "raw \<in> set (file_lines content)"
      and e: "e = lower (strip (remove_version_specifiers (strip raw)))"
      by (auto simp: load_requirements_Some requirement_name_Some)
    let ?p = "remove_version_specifiers (strip raw)"
    have c: "cut_at_specifier (strip raw) ?p" by (rule cut_remove_version_specifiers)
    have gt: "CHR ''>'' \<notin> set e" unfolding e
      by (rule lower_no_char [OF strip_no_char [OF remove_version_specifiers_none(2)]]) simp
    have lt: "CHR ''<'' \<notin> set e" unfolding e
      by (rule lower_no_char [OF strip_no_char [OF remove_version_specifiers_none(3)]]) simp
    have br: "CHR ''['' \<notin> set e" unfolding e
      by (rule lower_no_char [OF strip_no_char [OF remove_version_specifiers_none(4)]]) simp
    have eq: "\<not> sublist ''=='' e" unfolding e
      by (rule lower_no_eqeq [OF strip_no_sublist [OF remove_version_specifiers_none(1)]])
    have ge: "\<not> sublist ''>='' e"
    proof
      assume "sublist ''>='' e"
      then have "set ''>='' \<subseteq> set e" by (rule set_mono_sublist)
      with gt show False by simp
    qed
    have le: "\<not> sublist ''<='' e"
    proof
      assume "sublist ''<='' e"
      then have "set ''<='' \<subseteq> set e" by (rule set_mono_sublist)
      with lt show False by simp
    qed
    have low: "lower e = e" unfolding e by (rule lower_lower)
    have st: "strip e = e" unfolding e by (simp only: strip_lower strip_strip)
    have ex: "\<exists>raw \<in> set (file_lines content). \<exists>p.
        cut_at_specifier (strip raw) p \<and> e = lower (strip p)"
      using raw c e by blast
    show ?thesis using ex low st eq ge le gt lt br by blast
  qed
qed


text \<open>
  C7. Running the parser's loop over the lines of a file again, from the set that
  parsing the file gave, adds nothing: the parsed set depends on the contents only. The
  line \<open>requests>=2.0,<3.0  # http\<close> gives the one name \<open>requests\<close>. A line of white space
  only and a line that begins with \<open>#\<close> leave the set as it is. Every entry comes from a
  line of the file, stripped, cut at a version specifier, stripped and lowercased; it is
  its own lowercase and stripped form and holds none of \<open>==\<close>, \<open>>=\<close>, \<open><=\<close>, \<open>>\<close>,
  \<open><\<close>, \<open>[\<close>.
\<close>

theorem manifest_parsing:
  "fold add_requirement (file_lines content) (load_requirements (Some content))
     = load_requirements (Some content) \<and>
   load_requirements (Some ''requests>=2.0,<3.0  # http'') = {''requests''} \<and>
   ((\<forall>c \<in> set raw. isspace c) \<or> prefix ''#'' raw \<longrightarrow>
      add_requirement raw packages = packages) \<and>
   (e \<in> load_requirements (Some content) \<longrightarrow>
     (\<exists>raw \<in> set (file_lines content). \<exists>p.
        cut_at_specifier (strip raw) p \<and> e = lower (strip p)) \<and>
     lower e = e \<and> strip e = e \<and>
     \<not> sublist ''=='' e \<and> \<not> sublist ''>='' e \<and> \<not> sublist ''<='' e \<and>
     CHR ''>'' \<notin> set e \<and> CHR ''<'' \<notin> set e \<and> CHR ''['' \<notin> set e)"
  using manifest_parsing_parts(1) [of content] manifest_parsing_parts(2)
    manifest_parsing_parts(3) [of raw packages] manifest_parsing_parts(4) [of e content]
  by blast

theorem manifest_parsing_witness:
  "prefix ''#'' ''# pinned'' \<and>
   add_requirement ''# pinned'' {''flask''} = {''flask''} \<and>
   ''flask'' \<in> load_requirements (Some ''Flask[async]>=2.0'') \<and>
   \<not> sublist ''>='' ''flask'' \<and> CHR ''['' \<notin> set ''flask''"
proof -
  have a: "prefix ''#'' ''# pinned''" by code_simp
  have b: "''flask'' \<in> load_requirements (Some ''Flask[async]>=2.0'')" by code_simp
  from manifest_parsing [of "''Flask[async]>=2.0''" "''# pinned''" "{''flask''}" "''flask''"] a b
  show ?thesis by blast
qed

section \<open>Reading the backup file back\<close>

lemma split0_at_sep: "c \<notin> set n \<Longrightarrow> split0 (c # sep) (n @ c # sep @ w) = n"
  by (induction n) (auto simp: split0_Cons)

lemma lines_from_backup_line:
  assumes "one_line (fst item)" and "one_line (snd item)"
  shows "lines_from [] (backup_line item @ rest) = backup_line item # lines_from [] rest"
proof -
  let ?x = "fst item @ ''=='' @ snd item"
  have x: "CHR 0x0A \<notin> set ?x" "CHR 0x0D \<notin> set ?x"
    using assms by (auto simp: one_line_def)
  have e: "backup_line item @ rest = ?x @ CHR 0x0A # rest"
    by (simp add: backup_line_def)
  have l: "backup_line item = rev [] @ ?x @ [CHR 0x0A]"
    by (simp add: backup_line_def)
  show ?thesis unfolding e unfolding l by (rule lines_from_line [OF x])
qed

lemma file_lines_backup:
  assumes "\<forall>item \<in> set items. one_line (fst item) \<and> one_line (snd item)"
  shows "lines_from [] (concat (map backup_line items)) = map backup_line items"
  using assms
proof (induction items)
  case Nil
  then show ?case by simp
next
  case (Cons item items)
  have "lines_from [] (backup_line item @ concat (map backup_line items))
          = backup_line item # lines_from [] (concat (map backup_line items))"
    using Cons.prems by (intro lines_from_backup_line) simp_all
  moreover have "lines_from [] (concat (map backup_line items)) = map backup_line items"
    using Cons by simp
  ultimately show ?case by simp
qed

lemma strip_backup_line:
  assumes "strip n = n"
  shows "\<exists>w. strip (backup_line (n, v)) = n @ ''=='' @ w"
proof -
  let ?raw = "n @ ''=='' @ v @ [CHR 0x0A]"
  have ns: "\<not> isspace CHR ''=''" by (simp add: isspace_def)
  have l: "dropWhile isspace ?raw = ?raw"
  proof (cases n)
    case Nil
    then show ?thesis using ns by simp
  next
    case (Cons a as)
    then have "\<not> isspace a" using strip_self_hd [OF assms] by simp
    then show ?thesis using Cons by simp
  qed
  have r: "rev ?raw = rev (v @ [CHR 0x0A]) @ CHR ''='' # rev (n @ ''='')" by simp
  have "dropWhile isspace (rev ?raw)
          = dropWhile isspace (rev (v @ [CHR 0x0A])) @ CHR ''='' # rev (n @ ''='')"
    unfolding r using ns by (rule dropWhile_stop)
  then have "rev (dropWhile isspace (rev ?raw))
          = n @ ''=='' @ rev (dropWhile isspace (rev (v @ [CHR 0x0A])))"
    by simp
  then have "strip ?raw = n @ ''=='' @ rev (dropWhile isspace (rev (v @ [CHR 0x0A])))"
    unfolding strip_def l .
  then show ?thesis by (auto simp: backup_line_def)
qed

lemma remove_version_specifiers_plain:
  assumes "\<forall>c \<in> set n. c \<notin> set ''=<>[''"
  shows "remove_version_specifiers (n @ ''=='' @ w) = n"
proof -
  have eq: "CHR ''='' \<notin> set n" and gt: "CHR ''>'' \<notin> set n"
    and lt: "CHR ''<'' \<notin> set n" and br: "CHR ''['' \<notin> set n"
    using assms by auto
  have a: "split0 ''=='' (n @ ''=='' @ w) = n"
    using split0_at_sep [OF eq, of "''=''" w] by simp
  have b: "split0 ''>='' n = n"
    by (rule split0_id) (use gt set_mono_sublist in fastforce)
  have c: "split0 ''<='' n = n"
    by (rule split0_id) (use lt set_mono_sublist in fastforce)
  have d: "split0 ''>'' n = n"
    by (rule split0_id) (simp add: sublist_single gt)
  have e: "split0 ''<'' n = n"
    by (rule split0_id) (simp add: sublist_single lt)
  have f: "split0 ''['' n = n"
    by (rule split0_id) (simp add: sublist_single br)
  show ?thesis by (simp only: remove_version_specifiers_def a b c d e f)
qed

lemma requirement_name_backup_line:
  assumes "plain_name n"
  shows "requirement_name (backup_line (n, v)) = Some n"
proof -
  have st: "strip n = n" and lo: "lower n = n" and nc: "\<not> prefix ''#'' n"
    and ch: "\<forall>c \<in> set n. c \<notin> set ''=<>[''"
    using assms by (auto simp: plain_name_def)
  from strip_backup_line [OF st] obtain w where
    w: "strip (backup_line (n, v)) = n @ ''=='' @ w" by blast
  have ne: "n @ ''=='' @ w \<noteq> []" by simp
  have nh: "\<not> prefix ''#'' (n @ ''=='' @ w)"
    using nc by (cases n) auto
  have "remove_version_specifiers (n @ ''=='' @ w) = n"
    using ch by (rule remove_version_specifiers_plain)
  then show ?thesis
    using ne nh st lo by (simp add: requirement_name_Some w)
qed

lemma sorted_fst: "sorted (ps :: (string \<times> string) list) \<Longrightarrow> sorted (map fst ps)"
  by (induction ps) (auto simp: less_eq_prod_def)

lemma backup_reparse_parts:
  assumes "\<forall>item \<in> set g. plain_name (fst item) \<and> one_line (snd item)"
  shows "file_lines (backup_text g) = map backup_line (sort g)"
    and "load_requirements (Some (backup_text g)) = set (keys g)"
proof -
  have ol: "\<forall>item \<in> set (sort g). one_line (fst item) \<and> one_line (snd item)"
    using assms by (auto simp: plain_name_def one_line_def)
  show fl: "file_lines (backup_text g) = map backup_line (sort g)"
    unfolding file_lines_def backup_text_def using ol by (rule file_lines_backup)
  have rn: "requirement_name (backup_line item) = Some (fst item)" if "item \<in> set g" for item
    using requirement_name_backup_line [of "fst item" "snd item"] assms that by simp
  show "load_requirements (Some (backup_text g)) = set (keys g)"
  proof
    show "load_requirements (Some (backup_text g)) \<subseteq> set (keys g)"
      using rn by (auto simp: load_requirements_Some fl keys_def)
    show "set (keys g) \<subseteq> load_requirements (Some (backup_text g))"
    proof
      fix k assume "k \<in> set (keys g)"
      then obtain item where item: "item \<in> set g" "fst item = k" by (auto simp: keys_def)
      then have "backup_line item \<in> set (file_lines (backup_text g))" by (simp add: fl)
      moreover have "requirement_name (backup_line item) = Some k" using rn item by simp
      ultimately show "k \<in> load_requirements (Some (backup_text g))"
        unfolding load_requirements_Some by blast
    qed
  qed
qed


text \<open>
  C6, as stated, fails: \<open>load_requirements\<close> returns a set of names and discards what
  follows \<open>==\<close>, so two backups that differ in a version parse to the same set, and the
  versions cannot be read back from it.
\<close>

theorem backup_reparse_counterexample:
  "load_requirements (Some (backup_text [(''flask'', ''2.0'')])) = {''flask''} \<and>
   load_requirements (Some (backup_text [(''flask'', ''3.0'')])) = {''flask''} \<and>
   [(''flask'', ''2.0'')] \<noteq> [(''flask'', ''3.0'')]"
  by code_simp

text \<open>
  C6, amended. For global packages whose names are plain (lowercase, stripped, not
  starting with \<open>#\<close>, free of \<open>=\<close>, \<open><\<close>, \<open>>\<close>, \<open>[\<close> and line ends) and whose versions
  hold no line end, the lines of the backup file are the \<open>name==version\<close> lines of the
  items sorted by name, and parsing the file with \<open>load_requirements\<close> gives exactly the
  set of the names.
\<close>

theorem backup_reparse_names:
  assumes "\<forall>item \<in> set g. plain_name (fst item) \<and> one_line (snd item)"
  shows "file_lines (backup_text g) = map backup_line (sort g) \<and>
         sorted (map fst (sort g)) \<and>
         load_requirements (Some (backup_text g)) = set (keys g)"
  using backup_reparse_parts [OF assms] sorted_fst [of "sort g"] by simp

theorem backup_reparse_names_witness:
  "file_lines (backup_text [(''pip'', ''23.0''), (''flask'', ''2.0'')])
     = [''flask==2.0'' @ [CHR 0x0A], ''pip==23.0'' @ [CHR 0x0A]] \<and>
   load_requirements (Some (backup_text [(''pip'', ''23.0''), (''flask'', ''2.0'')]))
     = {''pip'', ''flask''}"
proof -
  have h: "\<forall>item \<in> set [(''pip'', ''23.0''), (''flask'', ''2.0'')].
      plain_name (fst item) \<and> one_line (snd item)"
    by code_simp
  have s: "map backup_line (sort [(''pip'', ''23.0''), (''flask'', ''2.0'')])
     = [''flask==2.0'' @ [CHR 0x0A], ''pip==23.0'' @ [CHR 0x0A]]"
    by code_simp
  have k: "set (keys [(''pip'', ''23.0''), (''flask'', ''2.0'')]) = {''pip'', ''flask''}"
    by code_simp
  from backup_reparse_names [OF h] s k show ?thesis by simp
qed

section \<open>Properties of the main flow\<close>

lemma get_packages_preliminary: "e \<in> set (fst (get_packages vp ex l)) \<Longrightarrow> preliminary e"
  by (auto simp: get_packages_def split: if_splits listing.splits)

lemma get_packages_abort:
  "e \<in> set (fst (get_packages vp ex l)) \<Longrightarrow> abort_event e \<Longrightarrow>
   snd (get_packages vp ex l) = Inl KeyboardInterrupt"
  by (auto simp: get_packages_def split: if_splits listing.splits)

lemma main_venv_preliminary: "e \<in> set (fst (main_venv w)) \<Longrightarrow> preliminary e"
  by (auto simp: main_venv_def and_then_def input_def dest: get_packages_preliminary
      split: if_splits answer.splits)

lemma main_venv_abort:
  "e \<in> set (fst (main_venv w)) \<Longrightarrow> abort_event e \<Longrightarrow>
   snd (main_venv w) = Inl KeyboardInterrupt \<or> snd (main_venv w) = Inl (SystemExit 0)"
  by (auto simp: main_venv_def and_then_def input_def dest: get_packages_abort
      split: if_splits answer.splits)

lemma main_removal_abort:
  "e \<in> set (fst (main_removal w g s)) \<Longrightarrow> abort_event e \<Longrightarrow>
   (snd (main_removal w g s) = Inl KeyboardInterrupt \<or> snd (main_removal w g s) = Inr ()) \<and>
   (\<forall>p oc. RunUninstaller p oc \<notin> set (fst (main_removal w g s)))"
  by (auto simp: main_removal_def and_then_def input_def create_backup_def uninstall_packages_def
      split: if_splits answer.splits write_outcome.splits run_outcome.splits)

lemma main_removal_backup_fails:
  "Backup WriteFails text \<in> set (fst (main_removal w g s)) \<Longrightarrow>
   snd (main_removal w g s) = Inl OSError \<and>
   (\<forall>p oc. RunUninstaller p oc \<notin> set (fst (main_removal w g s)))"
  by (auto simp: main_removal_def and_then_def input_def create_backup_def uninstall_packages_def
      split: if_splits answer.splits write_outcome.splits run_outcome.splits)

lemma main_removal_uninstall:
  "RunUninstaller p oc \<in> set (fst (main_removal w g s)) \<Longrightarrow>
   \<exists>r1 r2 present. lower r1 = ''y'' \<and> lower r2 = ''yes'' \<and>
     fst (main_removal w g s) =
       [DryRunPreview s, Input CreateBackupAndUninstall (Reply r1),
        Backup (Written present) (backup_text g), Input TypeYes (Reply r2)]
       @ [RunUninstaller s (uninstall_run w)]"
  by (auto simp: main_removal_def and_then_def input_def create_backup_def uninstall_packages_def
      split: if_splits answer.splits write_outcome.splits run_outcome.splits)

lemma main_removal_interrupted:
  "RunUninstaller p RunInterrupted \<in> set (fst (main_removal w g s)) \<Longrightarrow>
   snd (main_removal w g s) = Inl KeyboardInterrupt"
  by (auto simp: main_removal_def and_then_def input_def create_backup_def uninstall_packages_def
      split: if_splits answer.splits write_outcome.splits run_outcome.splits)

lemma main_cases:
  obtains
    (venv_stop) e where "snd (main_venv w) = Inl e" "main w = (fst (main_venv w), Inl e)"
  | (global_stop) v e where "snd (main_venv w) = Inr v"
      "snd (get_packages None False (global_listing w)) = Inl e"
      "main w = (fst (main_venv w) @ fst (get_packages None False (global_listing w)), Inl e)"
  | (nothing) v g where "snd (main_venv w) = Inr v"
      "snd (get_packages None False (global_listing w)) = Inr g"
      "main w = (fst (main_venv w) @ fst (get_packages None False (global_listing w)), Inr ())"
  | (removal) v g s where "snd (main_venv w) = Inr v"
      "snd (get_packages None False (global_listing w)) = Inr g" "s \<noteq> {}"
      "main w = (fst (main_venv w) @ fst (get_packages None False (global_listing w))
                   @ fst (main_removal w g s), snd (main_removal w g s))"
proof (cases "snd (main_venv w)")
  case (Inl e)
  then have "main w = (fst (main_venv w), Inl e)" by (simp add: main_def and_then_def)
  with Inl show ?thesis by (rule venv_stop)
next
  case v: (Inr v)
  let ?G = "get_packages None False (global_listing w)"
  show ?thesis
  proof (cases "snd ?G")
    case (Inl e)
    then have "main w = (fst (main_venv w) @ fst ?G, Inl e)"
      using v by (simp add: main_def and_then_def)
    with v Inl show ?thesis by (rule global_stop)
  next
    case g: (Inr g)
    let ?s = "fst (identify_safe_to_remove g v (load_requirements (requirements_txt w)))"
    show ?thesis
    proof (cases "?s = {}")
      case True
      then have "main w = (fst (main_venv w) @ fst ?G, Inr ())"
        using v g by (simp add: main_def and_then_def Let_def)
      with v g show ?thesis by (rule nothing)
    next
      case False
      then have "main w = (fst (main_venv w) @ fst ?G @ fst (main_removal w g ?s),
                           snd (main_removal w g ?s))"
        using v g by (simp add: main_def and_then_def Let_def)
      with v g False show ?thesis by (rule removal)
    qed
  qed
qed

lemma snoc_eq_split:
  assumes "xs @ [a] = pre @ b # post" and "b \<notin> set xs"
  shows "pre = xs"
proof (cases post rule: rev_cases)
  case Nil
  with assms(1) show ?thesis by simp
next
  case (snoc ys y)
  with assms(1) have "xs @ [a] = (pre @ b # ys) @ [y]" by simp
  then have "xs = pre @ b # ys" by (simp only: append1_eq_conv)
  with assms(2) show ?thesis by simp
qed

lemma no_uninstaller_preliminary: "\<forall>e \<in> set t. preliminary e \<Longrightarrow> RunUninstaller p oc \<notin> set t"
  by auto

lemma no_backup_preliminary: "\<forall>e \<in> set t. preliminary e \<Longrightarrow> Backup wo text \<notin> set t"
  by auto

lemma first_part_preliminary:
  "\<forall>e \<in> set (fst (main_venv w) @ fst (get_packages None False (global_listing w))).
     preliminary e"
  using main_venv_preliminary get_packages_preliminary by auto

lemma main_uninstall_after:
  assumes "fst (main w) = pre @ RunUninstaller pkgs oc # post"
  shows "(\<exists>present text. Backup (Written present) text \<in> set pre) \<and>
         (\<exists>r. Input CreateBackupAndUninstall (Reply r) \<in> set pre \<and> lower r = ''y'') \<and>
         (\<exists>r. Input TypeYes (Reply r) \<in> set pre \<and> lower r = ''yes'')"
proof -
  let ?V = "fst (main_venv w)"
  let ?G = "fst (get_packages None False (global_listing w))"
  have mem: "RunUninstaller pkgs oc \<in> set (fst (main w))" using assms by simp
  have nV: "RunUninstaller pkgs oc \<notin> set ?V"
    using main_venv_preliminary [of "RunUninstaller pkgs oc" w] by auto
  have nVG: "RunUninstaller pkgs oc \<notin> set (?V @ ?G)"
    by (rule no_uninstaller_preliminary [OF first_part_preliminary])
  show ?thesis
  proof (cases w rule: main_cases)
    case (venv_stop e)
    with mem nV show ?thesis by simp
  next
    case (global_stop v e)
    with mem nVG show ?thesis by simp
  next
    case (nothing v g)
    with mem nVG show ?thesis by simp
  next
    case (removal v g s)
    let ?R = "fst (main_removal w g s)"
    have "RunUninstaller pkgs oc \<in> set ?R" using mem nVG removal(4) by simp
    from main_removal_uninstall [OF this] obtain r1 r2 present where
      r: "lower r1 = ''y''" "lower r2 = ''yes''" and
      R: "?R = [DryRunPreview s, Input CreateBackupAndUninstall (Reply r1),
                Backup (Written present) (backup_text g), Input TypeYes (Reply r2)]
               @ [RunUninstaller s (uninstall_run w)]"
      by blast
    let ?four = "[DryRunPreview s, Input CreateBackupAndUninstall (Reply r1),
                Backup (Written present) (backup_text g), Input TypeYes (Reply r2)]"
    have eq: "((?V @ ?G) @ ?four) @ [RunUninstaller s (uninstall_run w)]
                = pre @ RunUninstaller pkgs oc # post"
      using assms removal(4) R by simp
    have "RunUninstaller pkgs oc \<notin> set ((?V @ ?G) @ ?four)"
      using nVG by simp
    with eq have pre: "pre = (?V @ ?G) @ ?four" by (rule snoc_eq_split)
    have "Backup (Written present) (backup_text g) \<in> set pre"
      and "Input CreateBackupAndUninstall (Reply r1) \<in> set pre"
      and "Input TypeYes (Reply r2) \<in> set pre"
      unfolding pre by simp_all
    with r show ?thesis by blast
  qed
qed

lemma main_backup_fails:
  assumes "Backup WriteFails text \<in> set (fst (main w))"
  shows "(\<forall>p oc. RunUninstaller p oc \<notin> set (fst (main w))) \<and> snd (main w) = Inl OSError"
proof -
  let ?V = "fst (main_venv w)"
  let ?G = "fst (get_packages None False (global_listing w))"
  have nb: "Backup WriteFails text \<notin> set (?V @ ?G)"
    by (rule no_backup_preliminary [OF first_part_preliminary])
  have nu: "RunUninstaller p oc \<notin> set (?V @ ?G)" for p oc
    by (rule no_uninstaller_preliminary [OF first_part_preliminary])
  show ?thesis
  proof (cases w rule: main_cases)
    case (venv_stop e)
    with assms nb show ?thesis by simp
  next
    case (global_stop v e)
    with assms nb show ?thesis by simp
  next
    case (nothing v g)
    with assms nb show ?thesis by simp
  next
    case (removal v g s)
    have "Backup WriteFails text \<in> set (fst (main_removal w g s))"
      using assms nb removal(4) by simp
    from main_removal_backup_fails [OF this] nu show ?thesis
      using removal(4) by simp
  qed
qed

lemma main_abort:
  assumes "e \<in> set (fst (main w))" and "abort_event e"
  shows "(\<forall>p oc. RunUninstaller p oc \<notin> set (fst (main w))) \<and>
         (snd (main w) = Inl KeyboardInterrupt \<or> snd (main w) = Inl (SystemExit 0) \<or>
          snd (main w) = Inr ())"
proof -
  let ?V = "fst (main_venv w)"
  let ?G = "fst (get_packages None False (global_listing w))"
  have nu: "RunUninstaller p oc \<notin> set (?V @ ?G)" for p oc
    by (rule no_uninstaller_preliminary [OF first_part_preliminary])
  have nuV: "RunUninstaller p oc \<notin> set ?V" for p oc
    using nu [of p oc] by simp
  show ?thesis
  proof (cases w rule: main_cases)
    case (venv_stop x)
    have "e \<in> set ?V" using assms(1) venv_stop(2) by simp
    from main_venv_abort [OF this assms(2)] venv_stop nuV show ?thesis by auto
  next
    case (global_stop v x)
    have nV: "e \<notin> set ?V" using main_venv_abort [OF _ assms(2), of w] global_stop(1) by auto
    then have "e \<in> set ?G" using assms(1) global_stop(3) by simp
    from get_packages_abort [OF this assms(2)] global_stop nu show ?thesis by auto
  next
    case (nothing v g)
    with nu show ?thesis by simp
  next
    case (removal v g s)
    have nV: "e \<notin> set ?V" using main_venv_abort [OF _ assms(2), of w] removal(1) by auto
    have nG: "e \<notin> set ?G"
      using get_packages_abort [OF _ assms(2), of None False "global_listing w"] removal(2)
      by auto
    have "e \<in> set (fst (main_removal w g s))" using assms(1) removal(4) nV nG by simp
    from main_removal_abort [OF this assms(2)] nu show ?thesis
      using removal(4) by auto
  qed
qed

lemma main_uninstall_interrupted:
  assumes "RunUninstaller p RunInterrupted \<in> set (fst (main w))"
  shows "snd (main w) = Inl KeyboardInterrupt"
proof -
  let ?V = "fst (main_venv w)"
  let ?G = "fst (get_packages None False (global_listing w))"
  have nu: "RunUninstaller p RunInterrupted \<notin> set (?V @ ?G)"
    by (rule no_uninstaller_preliminary [OF first_part_preliminary])
  then have nuV: "RunUninstaller p RunInterrupted \<notin> set ?V" by simp
  show ?thesis
  proof (cases w rule: main_cases)
    case (venv_stop e)
    with assms nuV show ?thesis by simp
  next
    case (global_stop v e)
    with assms nu show ?thesis by simp
  next
    case (nothing v g)
    with assms nu show ?thesis by simp
  next
    case (removal v g s)
    have "RunUninstaller p RunInterrupted \<in> set (fst (main_removal w g s))"
      using assms nu removal(4) by simp
    from main_removal_interrupted [OF this] show ?thesis using removal(4) by simp
  qed
qed

text \<open>
  C1. In every run, whatever comes before a run of the uninstaller includes a backup
  write that completed, an affirmative answer to the first confirmation and an
  affirmative answer to the final one. In a run whose backup write fails, the
  uninstaller is never run and the exit status is not zero.
\<close>

theorem uninstall_only_after_backup_and_confirmations:
  "(fst (script w) = pre @ RunUninstaller pkgs oc # post \<longrightarrow>
      (\<exists>present written. Backup (Written present) written \<in> set pre) \<and>
      (\<exists>r. Input CreateBackupAndUninstall (Reply r) \<in> set pre \<and> lower r = ''y'') \<and>
      (\<exists>r. Input TypeYes (Reply r) \<in> set pre \<and> lower r = ''yes'')) \<and>
   (Backup WriteFails text \<in> set (fst (script w)) \<longrightarrow>
      (\<forall>p out. RunUninstaller p out \<notin> set (fst (script w))) \<and> snd (script w) \<noteq> 0)"
proof (intro conjI impI)
  assume "fst (script w) = pre @ RunUninstaller pkgs oc # post"
  then have a: "fst (main w) = pre @ RunUninstaller pkgs oc # post" by (simp add: script_def)
  note r = main_uninstall_after [OF a]
  from r show "\<exists>present written. Backup (Written present) written \<in> set pre" by blast
  from r show "\<exists>r. Input CreateBackupAndUninstall (Reply r) \<in> set pre \<and> lower r = ''y''"
    by blast
  from r show "\<exists>r. Input TypeYes (Reply r) \<in> set pre \<and> lower r = ''yes''" by blast
next
  assume "Backup WriteFails text \<in> set (fst (script w))"
  then have b: "Backup WriteFails text \<in> set (fst (main w))" by (simp add: script_def)
  note r = main_backup_fails [OF b]
  from r show "\<forall>p out. RunUninstaller p out \<notin> set (fst (script w))" by (simp add: script_def)
  from r show "snd (script w) \<noteq> 0" by (simp add: script_def exit_status_def)
qed

theorem uninstall_only_after_backup_and_confirmations_witness:
  "fst (script sample_world) =
     [RunLister (Some ''venv'') (Listed [(''Flask'', ''2.0'')]),
      RunLister None (Listed [(''Flask'', ''2.0''), (''pip'', ''23.0'')]),
      DryRunPreview {''flask''}, Input CreateBackupAndUninstall (Reply ''Y''),
      Backup (Written True) (backup_text [(''flask'', ''2.0''), (''pip'', ''23.0'')]),
      Input TypeYes (Reply ''YES'')]
     @ RunUninstaller {''flask''} Succeeded # [] \<and>
   (\<exists>present written. Backup (Written present) written \<in> set
     [RunLister (Some ''venv'') (Listed [(''Flask'', ''2.0'')]),
      RunLister None (Listed [(''Flask'', ''2.0''), (''pip'', ''23.0'')]),
      DryRunPreview {''flask''}, Input CreateBackupAndUninstall (Reply ''Y''),
      Backup (Written True) (backup_text [(''flask'', ''2.0''), (''pip'', ''23.0'')]),
      Input TypeYes (Reply ''YES'')]) \<and>
   Backup WriteFails [] \<in> set (fst (script (sample_world\<lparr>backup_write := WriteFails\<rparr>))) \<and>
   snd (script (sample_world\<lparr>backup_write := WriteFails\<rparr>)) \<noteq> 0"
proof -
  let ?pre = "[RunLister (Some ''venv'') (Listed [(''Flask'', ''2.0'')]),
      RunLister None (Listed [(''Flask'', ''2.0''), (''pip'', ''23.0'')]),
      DryRunPreview {''flask''}, Input CreateBackupAndUninstall (Reply ''Y''),
      Backup (Written True) (backup_text [(''flask'', ''2.0''), (''pip'', ''23.0'')]),
      Input TypeYes (Reply ''YES'')]"
  have t: "fst (script sample_world) = ?pre @ RunUninstaller {''flask''} Succeeded # []"
    by code_simp
  have b: "Backup WriteFails [] \<in>
      set (fst (script (sample_world\<lparr>backup_write := WriteFails\<rparr>)))"
    by code_simp
  from uninstall_only_after_backup_and_confirmations
         [of sample_world ?pre "{''flask''}" Succeeded "[]" "[]"] t
  have one: "\<exists>present written. Backup (Written present) written \<in> set ?pre" by blast
  from uninstall_only_after_backup_and_confirmations
         [of "sample_world\<lparr>backup_write := WriteFails\<rparr>" "[]" "{}" Succeeded "[]" "[]"] b
  have two: "snd (script (sample_world\<lparr>backup_write := WriteFails\<rparr>)) \<noteq> 0" by blast
  from t one b two show ?thesis by blast
qed

text \<open>
  C8, as stated, fails for a Ctrl-C that arrives while the uninstaller runs: the run
  ends on the \<open>KeyboardInterrupt\<close> with exit status 0, after the uninstaller was run.
\<close>

theorem interrupt_during_uninstall_counterexample:
  "snd (main (sample_world\<lparr>uninstall_run := RunInterrupted\<rparr>)) = Inl KeyboardInterrupt \<and>
   snd (script (sample_world\<lparr>uninstall_run := RunInterrupted\<rparr>)) = 0 \<and>
   RunUninstaller {''flask''} RunInterrupted
     \<in> set (fst (script (sample_world\<lparr>uninstall_run := RunInterrupted\<rparr>)))"
  by code_simp

text \<open>
  C8, amended. A run in which a prompt gets an answer other than the affirmative one,
  or in which a Ctrl-C arrives at a prompt, during a package listing or during the
  backup write, ends with exit status 0 and never runs the uninstaller. A run in which
  a Ctrl-C arrives while the uninstaller runs ends with exit status 0 as well.
\<close>

theorem abort_exits_zero_without_uninstall:
  "(e \<in> set (fst (script w)) \<and> abort_event e \<longrightarrow>
      snd (script w) = 0 \<and> (\<forall>p out. RunUninstaller p out \<notin> set (fst (script w)))) \<and>
   (RunUninstaller pkgs RunInterrupted \<in> set (fst (script w)) \<longrightarrow> snd (script w) = 0)"
proof (intro conjI impI)
  assume a: "e \<in> set (fst (script w)) \<and> abort_event e"
  then have "e \<in> set (fst (main w))" and "abort_event e" by (simp_all add: script_def)
  note r = main_abort [OF this]
  from r show "snd (script w) = 0" by (auto simp: script_def exit_status_def)
  from r show "\<forall>p out. RunUninstaller p out \<notin> set (fst (script w))"
    by (simp add: script_def)
next
  assume "RunUninstaller pkgs RunInterrupted \<in> set (fst (script w))"
  then have "RunUninstaller pkgs RunInterrupted \<in> set (fst (main w))"
    by (simp add: script_def)
  from main_uninstall_interrupted [OF this] show "snd (script w) = 0"
    by (simp add: script_def exit_status_def)
qed

theorem abort_exits_zero_without_uninstall_witness:
  "Input CreateBackupAndUninstall (Reply ''n'')
     \<in> set (fst (script (sample_world\<lparr>confirm_answer := Reply ''n''\<rparr>))) \<and>
   snd (script (sample_world\<lparr>confirm_answer := Reply ''n''\<rparr>)) = 0 \<and>
   RunUninstaller {''flask''} RunInterrupted
     \<in> set (fst (script (sample_world\<lparr>uninstall_run := RunInterrupted\<rparr>))) \<and>
   snd (script (sample_world\<lparr>uninstall_run := RunInterrupted\<rparr>)) = 0"
proof -
  have a: "Input CreateBackupAndUninstall (Reply ''n'')
     \<in> set (fst (script (sample_world\<lparr>confirm_answer := Reply ''n''\<rparr>)))"
    by code_simp
  have b: "abort_event (Input CreateBackupAndUninstall (Reply ''n''))" by code_simp
  have c: "RunUninstaller {''flask''} RunInterrupted
     \<in> set (fst (script (sample_world\<lparr>uninstall_run := RunInterrupted\<rparr>)))"
    by code_simp
  from abort_exits_zero_without_uninstall
    [of "Input CreateBackupAndUninstall (Reply ''n'')"
        "sample_world\<lparr>confirm_answer := Reply ''n''\<rparr>" "{}"] a b
  have one: "snd (script (sample_world\<lparr>confirm_answer := Reply ''n''\<rparr>)) = 0" by blast
  from abort_exits_zero_without_uninstall
    [of "Input TypeYes CtrlC" "sample_world\<lparr>uninstall_run := RunInterrupted\<rparr>" "{''flask''}"] c
  have two: "snd (script (sample_world\<lparr>uninstall_run := RunInterrupted\<rparr>)) = 0" by blast
  from a one c two show ?thesis by blast
qed




end
